theory Spec2Isabelle
  imports Main "HOL-Library.Word"
begin

section \<open>The AV1 configuration atom (atom\_av1C.cpp) and the field packing core\<close>

text \<open>
  The source file declares one atom type: its constructor adds fifteen properties in
  order, and \<open>Generate\<close> stores a default into the first fourteen by position. The
  property classes, the base atom and the bit-level file reader and writer are not part
  of the file; the definitions that stand for them say so and follow the specification.
\<close>

subsection \<open>Data model\<close>

text \<open>
  Modelled from the spec: the source keeps an array of property objects in the atom; the
  declarations of the atom and property classes are not in the source file. The field
  kinds, field descriptors, field values, errors and the box instance (a type code, a
  layout and one value per field, in layout order) are those of the specification. A
  bitfield value is an unbounded natural number, so that a value too large for its
  width can be told from one that fits; \<open>IllegalArrayIndex\<close> stands for a read or a store
  past the end of an array.
\<close>

type_synonym byte = "8 word"

datatype error =
    OutOfRange
  | UnexpectedEndOfInput
  | TruncatedInput
  | MisalignedAccess
  | UnknownField
  | TypeMismatch
  | IllegalArrayIndex

datatype length_mode = Fixed nat | Remainder

datatype field_kind = Bitfield nat | RawBytes length_mode

datatype field_spec = FieldSpec (name: string) (kind: field_kind)

datatype field_value = UInt nat | Bytes "byte list"

type_synonym layout_descriptor = "field_spec list"

record box =
  type_code :: string
  layout :: layout_descriptor
  "values" :: "field_value list"

subsection \<open>The property declarations of the constructor\<close>

text \<open>
  The two property constructors as the source calls them: a name and a bit count, or a
  name and a value size in bytes.
\<close>

datatype property_decl =
    MP4BitfieldProperty string nat
  | MP4BytesProperty string nat

text \<open>
  Modelled from the spec: the classes \<open>MP4BitfieldProperty\<close> and \<open>MP4BytesProperty\<close> are
  declared outside the source file. A bitfield property of \<open>n\<close> bits is a \<open>Bitfield\<close> of
  width \<open>n\<close>; the specification reads the byte property of declared size 0 that closes the
  example atom as a raw byte field of \<open>Remainder\<close> length, and a positive size as a fixed
  length.
\<close>

fun field_of_property :: "property_decl \<Rightarrow> field_spec" where
  "field_of_property (MP4BitfieldProperty n numBits) = FieldSpec n (Bitfield numBits)"
| "field_of_property (MP4BytesProperty n valueSize) =
     FieldSpec n (RawBytes (if valueSize = 0 then Remainder else Fixed valueSize))"

text \<open>
  Modelled from the spec: the value a property holds right after construction, before
  any default is generated (construction fills the value list eagerly): zero for a
  bitfield, a zero-filled run of the declared size for raw bytes, hence the empty run
  for the size 0.
\<close>

fun initial_value :: "property_decl \<Rightarrow> field_value" where
  "initial_value (MP4BitfieldProperty n numBits) = UInt 0"
| "initial_value (MP4BytesProperty n valueSize) = Bytes (replicate valueSize 0)"

text \<open>
  Modelled from the spec: \<open>AddProperty\<close>, of the base atom class, is not in the source
  file; it appends one property to the atom, that is its descriptor to the layout and
  its initial value to the values.
\<close>

definition AddProperty :: "property_decl \<Rightarrow> box \<Rightarrow> box" where
  "AddProperty p b =
     b\<lparr>layout := layout b @ [field_of_property p], values := values b @ [initial_value p]\<rparr>"

text \<open>
  Modelled from the spec: the base atom constructor \<open>MP4Atom(file, type)\<close>, not in the
  source file, gives the type code and no property yet.
\<close>

definition MP4Atom :: "string \<Rightarrow> box" where
  "MP4Atom t = \<lparr>type_code = t, layout = [], values = []\<rparr>"

text \<open>
  The constructor \<open>MP4Av1CAtom::MP4Av1CAtom\<close>: the base constructor with the type
  \<open>av1C\<close>, then fifteen calls of \<open>AddProperty\<close>, in this order.
\<close>

definition MP4Av1CAtom_properties :: "property_decl list" where
  "MP4Av1CAtom_properties =
    [ MP4BitfieldProperty ''marker'' 1,
      MP4BitfieldProperty ''version'' 7,
      MP4BitfieldProperty ''seq_profile'' 3,
      MP4BitfieldProperty ''seq_level_idx_0'' 5,
      MP4BitfieldProperty ''seq_tier_0'' 1,
      MP4BitfieldProperty ''high_bitdepth'' 1,
      MP4BitfieldProperty ''twelve_bit'' 1,
      MP4BitfieldProperty ''monochrome'' 1,
      MP4BitfieldProperty ''chroma_subsampling_x'' 1,
      MP4BitfieldProperty ''chroma_subsampling_y'' 1,
      MP4BitfieldProperty ''chroma_sample_position'' 2,
      MP4BitfieldProperty ''reserved '' 3,
      MP4BitfieldProperty ''initial_presentation_delay_present'' 1,
      MP4BitfieldProperty ''initial_presentation_delay_minus_one_or_reserved'' 4,
      MP4BytesProperty ''configOBUs'' 0 ]"

definition MP4Av1CAtom :: box where
  "MP4Av1CAtom = foldl (\<lambda>b p. AddProperty p b) (MP4Atom ''av1C'') MP4Av1CAtom_properties"

subsection \<open>Generating the defaults\<close>

text \<open>
  Modelled from the spec: \<open>MP4Atom::Generate\<close>, the base class method, is not in the
  source file. Every default of the example atom is assigned by the derived method and
  the raw payload is left as it is, so the base call changes no value.
\<close>

definition MP4Atom_Generate :: "box \<Rightarrow> error + box" where
  "MP4Atom_Generate b = Inr b"

text \<open>
  The statement \<open>((MP4BitfieldProperty* )m_pProperties[i])->SetValue(v)\<close>: the property
  at position \<open>i\<close> is taken as a bitfield property and its value replaced, with no check
  of the magnitude. An index past the end of the array and a property of the other class
  are errors of the model, where the source has no defined result.
\<close>

definition SetValue :: "nat \<Rightarrow> nat \<Rightarrow> box \<Rightarrow> error + box" where
  "SetValue i v b =
     (if i < length (layout b) \<and> i < length (values b) then
        (case kind (layout b ! i) of
           Bitfield w \<Rightarrow> Inr (b\<lparr>values := (values b)[i := UInt v]\<rparr>)
         | RawBytes m \<Rightarrow> Inl TypeMismatch)
      else Inl IllegalArrayIndex)"

text \<open>Statements run in sequence; the first error ends the run.\<close>

fun run :: "(box \<Rightarrow> error + box) list \<Rightarrow> box \<Rightarrow> error + box" where
  "run [] b = Inr b"
| "run (s # ss) b = (case s b of Inl e \<Rightarrow> Inl e | Inr b' \<Rightarrow> run ss b')"

definition Generate :: "box \<Rightarrow> error + box" where
  "Generate b = run
    [ MP4Atom_Generate,
      SetValue 0 1,
      SetValue 1 1,
      SetValue 2 0,
      SetValue 3 0,
      SetValue 4 0,
      SetValue 5 0,
      SetValue 6 0,
      SetValue 7 0,
      SetValue 8 0,
      SetValue 9 0,
      SetValue 10 0,
      SetValue 11 0,
      SetValue 12 0,
      SetValue 13 0 ] b"

subsection \<open>Bit-level reader and writer\<close>

text \<open>
  Modelled from the spec: the bit packer of the file layer is not in the source file.
  Unsigned integers are packed most significant bit first, the bits of successive
  fields contiguously across byte boundaries, under one shared bit cursor.
\<close>

text \<open>
  Modelled from the spec: the \<open>w\<close> low-order bits of a value, most significant bit first,
  and the unsigned value of a run of bits.
\<close>

fun bits_of_nat :: "nat \<Rightarrow> nat \<Rightarrow> bool list" where
  "bits_of_nat 0 v = []"
| "bits_of_nat (Suc w) v = odd (v div 2 ^ w) # bits_of_nat w v"

definition nat_of_bits :: "bool list \<Rightarrow> nat" where
  "nat_of_bits bs = foldl (\<lambda>acc b. 2 * acc + (if b then 1 else 0)) 0 bs"

definition bits_of_byte :: "byte \<Rightarrow> bool list" where
  "bits_of_byte b = bits_of_nat 8 (unat b)"

definition byte_of_bits :: "bool list \<Rightarrow> byte" where
  "byte_of_bits bs = of_nat (nat_of_bits bs)"

text \<open>
  Modelled from the spec: a byte sequence seen as a bit stream, each byte most
  significant bit first.
\<close>

definition unpack_bytes :: "byte list \<Rightarrow> bool list" where
  "unpack_bytes bs = concat (map bits_of_byte bs)"

text \<open>
  Modelled from the spec: a bit stream cut into bytes, most significant bit first. The
  specification does not say what closes a last incomplete byte; here it is filled with
  zero bits.
\<close>

fun pack_bits :: "bool list \<Rightarrow> byte list" where
  "pack_bits [] = []"
| "pack_bits (b # bs) =
     byte_of_bits (take 8 (b # bs @ replicate 7 False)) # pack_bits (drop 7 bs)"

text \<open>
  Modelled from the spec: the writer is its output bit stream and the cursor is the
  number of bits written. \<open>write_bits\<close> appends the \<open>width\<close> low-order bits of the value.
  The specification records that the writer of the source silently truncates a value
  that needs more than \<open>width\<close> bits, and that a strict \<open>OutOfRange\<close> check would be a
  deviation from the source; the writer here is the one of the source, so it never
  fails. \<open>write_bytes\<close> is the direct byte copy. \<open>align_to_byte\<close> fails with
  \<open>MisalignedAccess\<close> when the cursor is not on a byte boundary.
\<close>

type_synonym bit_writer = "bool list"

definition write_bits :: "nat \<Rightarrow> nat \<Rightarrow> bit_writer \<Rightarrow> error + bit_writer" where
  "write_bits v width out = Inr (out @ bits_of_nat width v)"

definition write_bytes :: "byte list \<Rightarrow> bit_writer \<Rightarrow> bit_writer" where
  "write_bytes bs out = out @ unpack_bytes bs"

definition align_to_byte :: "nat \<Rightarrow> error + unit" where
  "align_to_byte cur = (if cur mod 8 = 0 then Inr () else Inl MisalignedAccess)"

text \<open>
  Modelled from the spec: the reader is the supplied byte slice and the bit cursor into
  it. \<open>read_bits\<close> consumes \<open>width\<close> bits and returns them as an unsigned integer, and
  fails with \<open>UnexpectedEndOfInput\<close> when fewer than \<open>width\<close> bits remain.
\<close>

record bit_reader =
  input :: "byte list"
  cursor :: nat

definition read_bits :: "nat \<Rightarrow> bit_reader \<Rightarrow> error + (nat \<times> bit_reader)" where
  "read_bits width r =
     (if cursor r + width \<le> 8 * length (input r) then
        Inr (nat_of_bits (take width (drop (cursor r) (unpack_bytes (input r)))),
             r\<lparr>cursor := cursor r + width\<rparr>)
      else Inl UnexpectedEndOfInput)"

text \<open>
  Modelled from the spec: reading exactly \<open>n\<close> bytes, which fails with \<open>TruncatedInput\<close>
  on a shorter input, and reading all bytes that are left, both from a byte boundary.
\<close>

definition read_bytes :: "nat \<Rightarrow> bit_reader \<Rightarrow> error + (byte list \<times> bit_reader)" where
  "read_bytes n r =
     (if cursor r div 8 + n \<le> length (input r) then
        Inr (take n (drop (cursor r div 8) (input r)), r\<lparr>cursor := cursor r + 8 * n\<rparr>)
      else Inl TruncatedInput)"

definition read_remainder :: "bit_reader \<Rightarrow> byte list \<times> bit_reader" where
  "read_remainder r =
     (drop (cursor r div 8) (input r), r\<lparr>cursor := 8 * length (input r)\<rparr>)"

subsection \<open>Layout descriptors\<close>

text \<open>
  Modelled from the spec: a descriptor is checked when it is built. The walk keeps the
  bit offset within the current byte: a bitfield, of width 1 to 32, advances it; a raw
  byte field must start at offset 0 and leaves it there; a \<open>Remainder\<close> field must be the
  last field. A descriptor that fails the check is rejected. The constructor of the
  source does not call this check: \<open>AddProperty\<close> appends whatever it is given.
\<close>

fun check_fields :: "nat \<Rightarrow> field_spec list \<Rightarrow> bool" where
  "check_fields off [] = True"
| "check_fields off (f # fs) =
     (case kind f of
        Bitfield w \<Rightarrow> 1 \<le> w \<and> w \<le> 32 \<and> check_fields ((off + w) mod 8) fs
      | RawBytes (Fixed n) \<Rightarrow> off = 0 \<and> check_fields 0 fs
      | RawBytes Remainder \<Rightarrow> off = 0 \<and> fs = [])"

definition build_layout :: "field_spec list \<Rightarrow> layout_descriptor option" where
  "build_layout fs = (if check_fields 0 fs then Some fs else None)"

text \<open>
  Modelled from the spec: the widths of the bitfields of a field list, the raw byte
  kinds, and the minimum length of an input: the bytes that the fixed-size fields of the
  layout need.
\<close>

fun bitfield_widths :: "field_spec list \<Rightarrow> nat list" where
  "bitfield_widths [] = []"
| "bitfield_widths (f # fs) =
     (case kind f of Bitfield w \<Rightarrow> w # bitfield_widths fs | RawBytes m \<Rightarrow> bitfield_widths fs)"

fun is_raw_bytes :: "field_kind \<Rightarrow> bool" where
  "is_raw_bytes (Bitfield w) = False"
| "is_raw_bytes (RawBytes m) = True"

fun fixed_bits :: "field_spec list \<Rightarrow> nat" where
  "fixed_bits [] = 0"
| "fixed_bits (f # fs) =
     (case kind f of
        Bitfield w \<Rightarrow> w + fixed_bits fs
      | RawBytes (Fixed n) \<Rightarrow> 8 * n + fixed_bits fs
      | RawBytes Remainder \<Rightarrow> fixed_bits fs)"

definition min_length :: "layout_descriptor \<Rightarrow> nat" where
  "min_length fs = (fixed_bits fs + 7) div 8"

text \<open>
  Modelled from the spec: whether a field list has a field of \<open>Remainder\<close> length, the
  field that reads all bytes left in the input.
\<close>

fun has_remainder :: "field_spec list \<Rightarrow> bool" where
  "has_remainder [] = False"
| "has_remainder (f # fs) = (kind f = RawBytes Remainder \<or> has_remainder fs)"

text \<open>
  Modelled from the spec: a value fits a field when it has the variant of the field's
  kind (\<open>TypeMismatch\<close> otherwise) and its magnitude: less than \<open>2 ^ width\<close> for a
  bitfield, exactly \<open>n\<close> bytes for a fixed length (\<open>OutOfRange\<close> otherwise).
\<close>

fun check_value :: "field_kind \<Rightarrow> field_value \<Rightarrow> error + unit" where
  "check_value (Bitfield w) (UInt v) = (if v < 2 ^ w then Inr () else Inl OutOfRange)"
| "check_value (Bitfield w) (Bytes bs) = Inl TypeMismatch"
| "check_value (RawBytes m) (UInt v) = Inl TypeMismatch"
| "check_value (RawBytes (Fixed n)) (Bytes bs) =
     (if length bs = n then Inr () else Inl OutOfRange)"
| "check_value (RawBytes Remainder) (Bytes bs) = Inr ()"

fun values_fit :: "field_spec list \<Rightarrow> field_value list \<Rightarrow> bool" where
  "values_fit [] [] = True"
| "values_fit (f # fs) (v # vs) = (check_value (kind f) v = Inr () \<and> values_fit fs vs)"
| "values_fit fs vs = False"

subsection \<open>The box driver\<close>

text \<open>
  Decoding, encoding and the access by name belong to the base atom and the property
  classes, outside the source file.
\<close>

text \<open>
  Modelled from the spec: decoding one field: a bitfield through \<open>read_bits\<close>, whose
  end-of-input failure is reported as \<open>TruncatedInput\<close>; a raw byte field after
  \<open>align_to_byte\<close>, of exactly \<open>n\<close> bytes or of all bytes that are left. The fields are
  decoded in layout order and the first failure ends the walk.
\<close>

fun decode_field :: "field_kind \<Rightarrow> bit_reader \<Rightarrow> error + (field_value \<times> bit_reader)" where
  "decode_field (Bitfield w) r =
     (case read_bits w r of
        Inl e \<Rightarrow> Inl TruncatedInput
      | Inr (v, r') \<Rightarrow> Inr (UInt v, r'))"
| "decode_field (RawBytes m) r =
     (case align_to_byte (cursor r) of
        Inl e \<Rightarrow> Inl e
      | Inr u \<Rightarrow>
         (case m of
            Fixed n \<Rightarrow>
              (case read_bytes n r of
                 Inl e \<Rightarrow> Inl e
               | Inr (bs, r') \<Rightarrow> Inr (Bytes bs, r'))
          | Remainder \<Rightarrow> (case read_remainder r of (bs, r') \<Rightarrow> Inr (Bytes bs, r'))))"

fun decode_fields :: "field_spec list \<Rightarrow> bit_reader \<Rightarrow> error + (field_value list \<times> bit_reader)" where
  "decode_fields [] r = Inr ([], r)"
| "decode_fields (f # fs) r =
     (case decode_field (kind f) r of
        Inl e \<Rightarrow> Inl e
      | Inr (v, r') \<Rightarrow>
         (case decode_fields fs r' of
            Inl e \<Rightarrow> Inl e
          | Inr (vs, r'') \<Rightarrow> Inr (v # vs, r'')))"

text \<open>
  Modelled from the spec: \<open>decode\<close> walks the layout over the input from bit 0. It is
  all-or-nothing: the values are stored only when every field was read, and then the
  result is the number of bytes consumed; on a failure the box is returned as it was.
\<close>

definition decode :: "box \<Rightarrow> byte list \<Rightarrow> box \<times> (error + nat)" where
  "decode b inp =
     (case decode_fields (layout b) \<lparr>input = inp, cursor = 0\<rparr> of
        Inl e \<Rightarrow> (b, Inl e)
      | Inr (vs, r) \<Rightarrow> (b\<lparr>values := vs\<rparr>, Inr ((cursor r + 7) div 8)))"

text \<open>
  Modelled from the spec: encoding one field: a bitfield through \<open>write_bits\<close>, after
  the check at encode time that its stored value still fits the declared width
  (\<open>OutOfRange\<close> otherwise); a raw byte field as a byte copy with \<open>align_to_byte\<close> before
  and after it; a value of the other variant is a \<open>TypeMismatch\<close>, as is a value list
  that does not match the layout in length. \<open>encode\<close> walks the layout in order and
  returns the bytes written.
\<close>

fun encode_field :: "field_kind \<Rightarrow> field_value \<Rightarrow> bit_writer \<Rightarrow> error + bit_writer" where
  "encode_field (Bitfield w) (UInt v) out =
     (if v < 2 ^ w then write_bits v w out else Inl OutOfRange)"
| "encode_field (Bitfield w) (Bytes bs) out = Inl TypeMismatch"
| "encode_field (RawBytes m) (UInt v) out = Inl TypeMismatch"
| "encode_field (RawBytes m) (Bytes bs) out =
     (case align_to_byte (length out) of
        Inl e \<Rightarrow> Inl e
      | Inr u \<Rightarrow>
         (let out' = write_bytes bs out in
          case align_to_byte (length out') of
            Inl e \<Rightarrow> Inl e
          | Inr u' \<Rightarrow> Inr out'))"

fun encode_fields :: "field_spec list \<Rightarrow> field_value list \<Rightarrow> bit_writer \<Rightarrow> error + bit_writer" where
  "encode_fields [] [] out = Inr out"
| "encode_fields (f # fs) (v # vs) out =
     (case encode_field (kind f) v out of
        Inl e \<Rightarrow> Inl e
      | Inr out' \<Rightarrow> encode_fields fs vs out')"
| "encode_fields fs vs out = Inl TypeMismatch"

definition encode :: "box \<Rightarrow> error + byte list" where
  "encode b =
     (case encode_fields (layout b) (values b) [] of
        Inl e \<Rightarrow> Inl e
      | Inr out \<Rightarrow> Inr (pack_bits out))"

text \<open>
  Modelled from the spec: access by name is a linear scan of the layout for the first
  field of that name; an absent name is an \<open>UnknownField\<close>, and a store checks the variant
  and magnitude of the value against the kind of the field.
\<close>

fun find_field :: "string \<Rightarrow> field_spec list \<Rightarrow> nat option" where
  "find_field n [] = None"
| "find_field n (f # fs) =
     (if name f = n then Some 0
      else (case find_field n fs of None \<Rightarrow> None | Some i \<Rightarrow> Some (Suc i)))"

definition get_by_name :: "box \<Rightarrow> string \<Rightarrow> error + field_value" where
  "get_by_name b n =
     (case find_field n (layout b) of
        None \<Rightarrow> Inl UnknownField
      | Some i \<Rightarrow> (if i < length (values b) then Inr (values b ! i) else Inl IllegalArrayIndex))"

definition set_by_name :: "box \<Rightarrow> string \<Rightarrow> field_value \<Rightarrow> error + box" where
  "set_by_name b n v =
     (case find_field n (layout b) of
        None \<Rightarrow> Inl UnknownField
      | Some i \<Rightarrow>
         (if i < length (values b) then
            (case check_value (kind (layout b ! i)) v of
               Inl e \<Rightarrow> Inl e
             | Inr u \<Rightarrow> Inr (b\<lparr>values := (values b)[i := v]\<rparr>))
          else Inl IllegalArrayIndex))"

text \<open>
  Modelled from the spec: the invariant of a box instance, one value for each field of
  its layout.
\<close>

definition box_inv :: "box \<Rightarrow> bool" where
  "box_inv b = (length (values b) = length (layout b))"

section \<open>Properties\<close>

subsection \<open>Bits and bytes\<close>

lemma length_bits_of_nat [simp]: "length (bits_of_nat w v) = w"
  by (induction w) simp_all

lemma foldl_bits_shift:
  "foldl (\<lambda>acc b. 2 * acc + (if b then 1 else 0)) a bs =
     a * 2 ^ length bs + foldl (\<lambda>acc b. 2 * acc + (if b then 1 else (0::nat))) 0 bs"
proof (induction bs arbitrary: a)
  case Nil
  then show ?case by simp
next
  case (Cons b bs)
  show ?case
    using Cons.IH [of "2 * a + (if b then 1 else 0)"] Cons.IH [of "if b then 1 else 0"]
    by (simp add: algebra_simps)
qed

lemma nat_of_bits_Nil [simp]: "nat_of_bits [] = 0"
  by (simp add: nat_of_bits_def)

lemma nat_of_bits_Cons:
  "nat_of_bits (b # bs) = (if b then 2 ^ length bs else 0) + nat_of_bits bs"
  using foldl_bits_shift [of "if b then 1 else 0" bs]
  by (simp add: nat_of_bits_def)

lemma nat_of_bits_lt: "nat_of_bits bs < 2 ^ length bs"
  by (induction bs) (simp_all add: nat_of_bits_Cons)

lemma nat_of_bits_of_nat: "nat_of_bits (bits_of_nat w v) = v mod 2 ^ w"
proof (induction w)
  case 0
  then show ?case by simp
next
  case (Suc w)
  have "v mod (2 ^ w * 2) = 2 ^ w * (v div 2 ^ w mod 2) + v mod 2 ^ w"
    by (rule mod_mult2_eq)
  then show ?case
    using Suc by (simp add: nat_of_bits_Cons odd_iff_mod_2_eq_one mult.commute)
qed

lemma bits_of_nat_mod: "bits_of_nat w (v mod 2 ^ w) = bits_of_nat w v"
proof -
  have "k \<le> w \<Longrightarrow> bits_of_nat k (v mod 2 ^ w) = bits_of_nat k v" for k
  proof (induction k)
    case 0
    then show ?case by simp
  next
    case (Suc k)
    then have kw: "k < w" by simp
    have "odd (v mod 2 ^ w div 2 ^ k) = odd (v div 2 ^ k)"
    proof -
      have "bit (take_bit w v) k = bit v k"
        using kw by (simp add: bit_take_bit_iff)
      then show ?thesis
        by (simp add: bit_iff_odd take_bit_eq_mod)
    qed
    with Suc show ?case by simp
  qed
  then show ?thesis by simp
qed

lemma bits_of_nat_add_high:
  "m < 2 ^ n \<Longrightarrow> bits_of_nat n (k * 2 ^ n + m) = bits_of_nat n m"
  using bits_of_nat_mod [of n "k * 2 ^ n + m"] by simp

lemma bits_of_nat_of_bits: "bits_of_nat (length bs) (nat_of_bits bs) = bs"
proof (induction bs)
  case Nil
  then show ?case by simp
next
  case (Cons b bs)
  have lt: "nat_of_bits bs < 2 ^ length bs" by (rule nat_of_bits_lt)
  show ?case
  proof (cases b)
    case True
    have "bits_of_nat (length bs) (1 * 2 ^ length bs + nat_of_bits bs) = bits_of_nat (length bs) (nat_of_bits bs)"
      using lt by (rule bits_of_nat_add_high)
    moreover have "(2 ^ length bs + nat_of_bits bs) div 2 ^ length bs = 1"
      using lt by (simp add: div_add_self1)
    ultimately show ?thesis using True Cons by (simp add: nat_of_bits_Cons)
  next
    case False
    then show ?thesis using Cons lt by (simp add: nat_of_bits_Cons)
  qed
qed

lemma length_bits_of_byte [simp]: "length (bits_of_byte b) = 8"
  by (simp add: bits_of_byte_def)

lemma byte_of_bits_of_byte [simp]: "byte_of_bits (bits_of_byte b) = b"
proof -
  have "unat b < 2 ^ 8" using unsigned_less [of b] by simp
  then show ?thesis by (simp add: byte_of_bits_def bits_of_byte_def nat_of_bits_of_nat)
qed

lemma bits_of_byte_of_bits [simp]: "length bs = 8 \<Longrightarrow> bits_of_byte (byte_of_bits bs) = bs"
proof -
  assume l: "length bs = 8"
  have "nat_of_bits bs < 2 ^ 8" using nat_of_bits_lt [of bs] l by simp
  then have "unat (of_nat (nat_of_bits bs) :: byte) = nat_of_bits bs"
    by (simp add: unat_of_nat)
  then show ?thesis
    using bits_of_nat_of_bits [of bs] l by (simp add: byte_of_bits_def bits_of_byte_def)
qed

subsection \<open>The constructed atom\<close>

lemma MP4Av1CAtom_eq:
  "MP4Av1CAtom =
     \<lparr>type_code = ''av1C'',
      layout =
        [FieldSpec ''marker'' (Bitfield 1),
         FieldSpec ''version'' (Bitfield 7),
         FieldSpec ''seq_profile'' (Bitfield 3),
         FieldSpec ''seq_level_idx_0'' (Bitfield 5),
         FieldSpec ''seq_tier_0'' (Bitfield 1),
         FieldSpec ''high_bitdepth'' (Bitfield 1),
         FieldSpec ''twelve_bit'' (Bitfield 1),
         FieldSpec ''monochrome'' (Bitfield 1),
         FieldSpec ''chroma_subsampling_x'' (Bitfield 1),
         FieldSpec ''chroma_subsampling_y'' (Bitfield 1),
         FieldSpec ''chroma_sample_position'' (Bitfield 2),
         FieldSpec ''reserved '' (Bitfield 3),
         FieldSpec ''initial_presentation_delay_present'' (Bitfield 1),
         FieldSpec ''initial_presentation_delay_minus_one_or_reserved'' (Bitfield 4),
         FieldSpec ''configOBUs'' (RawBytes Remainder)],
      values =
        [UInt 0, UInt 0, UInt 0, UInt 0, UInt 0, UInt 0, UInt 0, UInt 0,
         UInt 0, UInt 0, UInt 0, UInt 0, UInt 0, UInt 0, Bytes []]\<rparr>"
  by (simp add: MP4Av1CAtom_def MP4Av1CAtom_properties_def AddProperty_def MP4Atom_def)

lemma layout_MP4Av1CAtom:
  "layout MP4Av1CAtom =
        [FieldSpec ''marker'' (Bitfield 1),
         FieldSpec ''version'' (Bitfield 7),
         FieldSpec ''seq_profile'' (Bitfield 3),
         FieldSpec ''seq_level_idx_0'' (Bitfield 5),
         FieldSpec ''seq_tier_0'' (Bitfield 1),
         FieldSpec ''high_bitdepth'' (Bitfield 1),
         FieldSpec ''twelve_bit'' (Bitfield 1),
         FieldSpec ''monochrome'' (Bitfield 1),
         FieldSpec ''chroma_subsampling_x'' (Bitfield 1),
         FieldSpec ''chroma_subsampling_y'' (Bitfield 1),
         FieldSpec ''chroma_sample_position'' (Bitfield 2),
         FieldSpec ''reserved '' (Bitfield 3),
         FieldSpec ''initial_presentation_delay_present'' (Bitfield 1),
         FieldSpec ''initial_presentation_delay_minus_one_or_reserved'' (Bitfield 4),
         FieldSpec ''configOBUs'' (RawBytes Remainder)]"
  by (simp add: MP4Av1CAtom_eq)

text \<open>
  C1. \<open>Generate\<close> on the freshly constructed AV1 configuration atom succeeds and leaves
  marker = 1, version = 1, each of the twelve other bitfields = 0 and \<open>configOBUs\<close> empty;
  encoding that state gives exactly the four bytes 0x81 0x00 0x00 0x00 and no payload
  byte.
\<close>

theorem generate_defaults_av1C:
  "Generate MP4Av1CAtom =
     Inr (MP4Av1CAtom\<lparr>values :=
        [UInt 1, UInt 1, UInt 0, UInt 0, UInt 0, UInt 0, UInt 0, UInt 0,
         UInt 0, UInt 0, UInt 0, UInt 0, UInt 0, UInt 0, Bytes []]\<rparr>)
   \<and> zip (map name (layout MP4Av1CAtom))
        [UInt 1, UInt 1, UInt 0, UInt 0, UInt 0, UInt 0, UInt 0, UInt 0,
         UInt 0, UInt 0, UInt 0, UInt 0, UInt 0, UInt 0, Bytes []] =
       [(''marker'', UInt 1), (''version'', UInt 1), (''seq_profile'', UInt 0),
        (''seq_level_idx_0'', UInt 0), (''seq_tier_0'', UInt 0), (''high_bitdepth'', UInt 0),
        (''twelve_bit'', UInt 0), (''monochrome'', UInt 0), (''chroma_subsampling_x'', UInt 0),
        (''chroma_subsampling_y'', UInt 0), (''chroma_sample_position'', UInt 0),
        (''reserved '', UInt 0), (''initial_presentation_delay_present'', UInt 0),
        (''initial_presentation_delay_minus_one_or_reserved'', UInt 0),
        (''configOBUs'', Bytes [])]
   \<and> encode (MP4Av1CAtom\<lparr>values :=
        [UInt 1, UInt 1, UInt 0, UInt 0, UInt 0, UInt 0, UInt 0, UInt 0,
         UInt 0, UInt 0, UInt 0, UInt 0, UInt 0, UInt 0, Bytes []]\<rparr>) =
       Inr [0x81, 0x00, 0x00, 0x00]"
proof (intro conjI)
  show "Generate MP4Av1CAtom =
     Inr (MP4Av1CAtom\<lparr>values :=
        [UInt 1, UInt 1, UInt 0, UInt 0, UInt 0, UInt 0, UInt 0, UInt 0,
         UInt 0, UInt 0, UInt 0, UInt 0, UInt 0, UInt 0, Bytes []]\<rparr>)"
    by (simp add: MP4Av1CAtom_eq Generate_def MP4Atom_Generate_def SetValue_def)
  show "zip (map name (layout MP4Av1CAtom))
        [UInt 1, UInt 1, UInt 0, UInt 0, UInt 0, UInt 0, UInt 0, UInt 0,
         UInt 0, UInt 0, UInt 0, UInt 0, UInt 0, UInt 0, Bytes []] =
       [(''marker'', UInt 1), (''version'', UInt 1), (''seq_profile'', UInt 0),
        (''seq_level_idx_0'', UInt 0), (''seq_tier_0'', UInt 0), (''high_bitdepth'', UInt 0),
        (''twelve_bit'', UInt 0), (''monochrome'', UInt 0), (''chroma_subsampling_x'', UInt 0),
        (''chroma_subsampling_y'', UInt 0), (''chroma_sample_position'', UInt 0),
        (''reserved '', UInt 0), (''initial_presentation_delay_present'', UInt 0),
        (''initial_presentation_delay_minus_one_or_reserved'', UInt 0),
        (''configOBUs'', Bytes [])]"
    by (simp add: layout_MP4Av1CAtom)
  show "encode (MP4Av1CAtom\<lparr>values :=
        [UInt 1, UInt 1, UInt 0, UInt 0, UInt 0, UInt 0, UInt 0, UInt 0,
         UInt 0, UInt 0, UInt 0, UInt 0, UInt 0, UInt 0, Bytes []]\<rparr>) =
       Inr [0x81, 0x00, 0x00, 0x00]"
    by code_simp
qed

text \<open>
  C5. The layout of the AV1 configuration atom is the fifteen properties of the
  constructor in order: fourteen bitfields, of widths 1, 7, 3, 5, 1, 1, 1, 1, 1, 1, 2, 3,
  1 and 4, which sum to 32 bits, that is 4 bytes, and then the only raw byte field,
  \<open>configOBUs\<close> of \<open>Remainder\<close> length, which is the last field.
\<close>

theorem av1C_layout_shape:
  "layout MP4Av1CAtom = map field_of_property MP4Av1CAtom_properties
   \<and> length (layout MP4Av1CAtom) = 15
   \<and> map kind (take 14 (layout MP4Av1CAtom)) =
       [Bitfield 1, Bitfield 7, Bitfield 3, Bitfield 5, Bitfield 1, Bitfield 1, Bitfield 1,
        Bitfield 1, Bitfield 1, Bitfield 1, Bitfield 2, Bitfield 3, Bitfield 1, Bitfield 4]
   \<and> length (bitfield_widths (layout MP4Av1CAtom)) = 14
   \<and> sum_list (bitfield_widths (layout MP4Av1CAtom)) = 32
   \<and> min_length (layout MP4Av1CAtom) = 4
   \<and> filter (\<lambda>f. is_raw_bytes (kind f)) (layout MP4Av1CAtom) =
       [FieldSpec ''configOBUs'' (RawBytes Remainder)]
   \<and> drop 14 (layout MP4Av1CAtom) = [FieldSpec ''configOBUs'' (RawBytes Remainder)]
   \<and> last (layout MP4Av1CAtom) = FieldSpec ''configOBUs'' (RawBytes Remainder)"
  by (simp add: layout_MP4Av1CAtom MP4Av1CAtom_properties_def min_length_def)

subsection \<open>Packing a bit stream into bytes\<close>

lemma unpack_bytes_Nil [simp]: "unpack_bytes [] = []"
  by (simp add: unpack_bytes_def)

lemma unpack_bytes_Cons [simp]: "unpack_bytes (x # xs) = bits_of_byte x @ unpack_bytes xs"
  by (simp add: unpack_bytes_def)

lemma unpack_bytes_append [simp]: "unpack_bytes (xs @ ys) = unpack_bytes xs @ unpack_bytes ys"
  by (simp add: unpack_bytes_def)

lemma length_unpack_bytes [simp]: "length (unpack_bytes xs) = 8 * length xs"
  by (induction xs) simp_all

lemma unpack_bytes_drop: "unpack_bytes (drop k xs) = drop (8 * k) (unpack_bytes xs)"
proof (induction xs arbitrary: k)
  case Nil
  then show ?case by simp
next
  case (Cons x xs)
  show ?case
  proof (cases k)
    case 0
    then show ?thesis by simp
  next
    case (Suc j)
    then show ?thesis using Cons [of j] by simp
  qed
qed

lemma unpack_bytes_take: "unpack_bytes (take k xs) = take (8 * k) (unpack_bytes xs)"
proof (induction xs arbitrary: k)
  case Nil
  then show ?case by simp
next
  case (Cons x xs)
  show ?case
  proof (cases k)
    case 0
    then show ?thesis by simp
  next
    case (Suc j)
    then show ?thesis using Cons [of j] by simp
  qed
qed

lemma pack_bits_chunk:
  "length c = 8 \<Longrightarrow> pack_bits (c @ bs) = byte_of_bits c # pack_bits bs"
proof -
  assume l: "length c = 8"
  then obtain b c' where c: "c = b # c'" and l': "length c' = 7"
    by (cases c) auto
  show ?thesis using l' by (simp add: c)
qed

lemma pack_unpack_bytes [simp]: "pack_bits (unpack_bytes xs) = xs"
  by (induction xs) (simp_all add: pack_bits_chunk)

lemma unpack_bytes_inj: "unpack_bytes xs = unpack_bytes ys \<Longrightarrow> xs = ys"
  by (metis pack_unpack_bytes)

lemma pack_bits_short:
  "bs \<noteq> [] \<Longrightarrow> length bs \<le> 8 \<Longrightarrow>
     pack_bits bs = [byte_of_bits (bs @ replicate (8 - length bs) False)]"
proof -
  assume ne: "bs \<noteq> []" and l: "length bs \<le> 8"
  obtain b c where bs: "bs = b # c" using ne by (cases bs) auto
  have "take 7 (c @ replicate 7 False) = c @ replicate (7 - length c) False"
    using l bs by simp
  then show ?thesis using l bs by simp
qed

lemma unpack_pack_bits:
  "unpack_bytes (pack_bits bs) = bs @ replicate ((8 - length bs mod 8) mod 8) False"
proof (induction "length bs" arbitrary: bs rule: less_induct)
  case less
  show ?case
  proof (cases "length bs \<le> 8")
    case True
    show ?thesis
    proof (cases "bs = []")
      case True
      then show ?thesis by simp
    next
      case False
      have "(8 - length bs mod 8) mod 8 = 8 - length bs"
        using True False by (cases "length bs = 8") auto
      then show ?thesis using True False by (simp add: pack_bits_short)
    qed
  next
    case False
    then have split: "bs = take 8 bs @ drop 8 bs" and l8: "length (take 8 bs) = 8"
      by simp_all
    have "pack_bits bs = byte_of_bits (take 8 bs) # pack_bits (drop 8 bs)"
      using pack_bits_chunk [OF l8, of "drop 8 bs"] by simp
    moreover have "unpack_bytes (pack_bits (drop 8 bs)) =
        drop 8 bs @ replicate ((8 - length (drop 8 bs) mod 8) mod 8) False"
      using False by (intro less) simp
    moreover have "length (drop 8 bs) mod 8 = length bs mod 8"
      using False le_mod_geq [of 8 "length bs"] by simp
    ultimately have "unpack_bytes (pack_bits bs) =
       take 8 bs @ drop 8 bs @ replicate ((8 - length bs mod 8) mod 8) False"
      using l8 by simp
    then show ?thesis by simp
  qed
qed

lemma pack_len_arith:
  fixes p n :: nat
  assumes "8 * p = n + (8 - n mod 8) mod 8"
  shows "p = (n + 7) div 8"
proof (cases "n mod 8 = 0")
  case True
  then have "8 * p = n" using assms by simp
  then show ?thesis by simp
next
  case False
  then have r: "0 < n mod 8" by simp
  have lt: "n mod 8 < 8" by simp
  have "(8 - n mod 8) mod 8 = 8 - n mod 8" using r by simp
  then have e: "8 * p = n + 8 - n mod 8" using assms lt by simp
  have n: "n = 8 * (n div 8) + n mod 8" by simp
  have "8 * p = 8 * (n div 8) + 8" using e n lt by linarith
  then have p: "p = n div 8 + 1" by simp
  have "(n + 7) div 8 = n div 8 + 1" using r lt by arith
  then show ?thesis using p by simp
qed

lemma length_pack_bits: "length (pack_bits bs) = (length bs + 7) div 8"
proof -
  have "8 * length (pack_bits bs) = length bs + (8 - length bs mod 8) mod 8"
    using arg_cong [OF unpack_pack_bits [of bs], of length] by simp
  then show ?thesis by (rule pack_len_arith)
qed

subsection \<open>Writing and reading a bitfield\<close>

lemma read_bits_at:
  assumes "unpack_bytes inp = pre @ bits @ rest" and "length bits = w"
  shows "read_bits w \<lparr>input = inp, cursor = length pre\<rparr> =
           Inr (nat_of_bits bits, \<lparr>input = inp, cursor = length pre + w\<rparr>)"
proof -
  have "8 * length inp = length (pre @ bits @ rest)"
    using assms(1) length_unpack_bytes [of inp] by simp
  then have "length pre + w \<le> 8 * length inp"
    using assms(2) by simp
  moreover have "take w (drop (length pre) (unpack_bytes inp)) = bits"
    using assms by simp
  ultimately show ?thesis by (simp add: read_bits_def)
qed






subsection \<open>Decoding what was encoded\<close>

lemma encode_field_extends:
  "encode_field k v out = Inr out' \<Longrightarrow> \<exists>t. out' = out @ t"
  by (cases "(k, v, out)" rule: encode_field.cases)
     (auto simp: write_bits_def write_bytes_def Let_def split: if_splits sum.splits)

lemma encode_fields_extends:
  "encode_fields fs vs out = Inr out' \<Longrightarrow> \<exists>t. out' = out @ t"
proof (induction fs vs out rule: encode_fields.induct)
  case (1 out)
  then show ?case by simp
next
  case (2 f fs v vs out)
  from "2.prems" obtain mid where m: "encode_field (kind f) v out = Inr mid"
    and r: "encode_fields fs vs mid = Inr out'"
    by (auto split: sum.splits)
  from encode_field_extends [OF m] obtain t where "mid = out @ t" ..
  moreover from "2.IH" [OF m r] obtain t' where "out' = mid @ t'" ..
  ultimately show ?case by simp
qed simp_all

lemma decode_fields_roundtrip:
  assumes "encode_fields fs vs pre = Inr out"
    and "values_fit fs vs"
    and "check_fields (length pre mod 8) fs"
    and "unpack_bytes inp = out @ pad"
    and "length pad < 8"
  shows "decode_fields fs \<lparr>input = inp, cursor = length pre\<rparr> =
           Inr (vs, \<lparr>input = inp, cursor = (if fs \<noteq> [] \<and> kind (last fs) = RawBytes Remainder then 8 * length inp else length out)\<rparr>)"
  using assms
proof (induction fs vs pre rule: encode_fields.induct)
  case (1 out0)
  then show ?case by simp
next
  case (2 f fs v vs pre)
  from "2.prems"(1) obtain mid where m: "encode_field (kind f) v pre = Inr mid"
    and r: "encode_fields fs vs mid = Inr out"
    by (auto split: sum.splits)
  from encode_fields_extends [OF r] obtain t where out: "out = mid @ t" ..
  have fit: "check_value (kind f) v = Inr ()" and fits: "values_fit fs vs"
    using "2.prems"(2) by simp_all
  have len: "8 * length inp = length out + length pad"
    using "2.prems"(4) length_unpack_bytes [of inp] by simp
  show ?case
  proof (cases "kind f")
    case (Bitfield w)
    with fit obtain x where v: "v = UInt x" and x: "x < 2 ^ w"
      by (cases v) (auto split: if_splits)
    have mid: "mid = pre @ bits_of_nat w x"
      using m Bitfield v x by (simp add: write_bits_def)
    have chk: "check_fields (length mid mod 8) fs"
      using "2.prems"(3) Bitfield mid by (simp add: mod_add_left_eq)
    have "unpack_bytes inp = pre @ bits_of_nat w x @ (t @ pad)"
      using "2.prems"(4) out mid by simp
    from read_bits_at [OF this, of w]
    have rd: "read_bits w \<lparr>input = inp, cursor = length pre\<rparr> =
        Inr (x, \<lparr>input = inp, cursor = length mid\<rparr>)"
      using x mid by (simp add: nat_of_bits_of_nat)
    have ih: "decode_fields fs \<lparr>input = inp, cursor = length mid\<rparr> =
       Inr (vs, \<lparr>input = inp, cursor = (if fs \<noteq> [] \<and> kind (last fs) = RawBytes Remainder then 8 * length inp else length out)\<rparr>)"
      using "2.IH" [OF m r fits chk "2.prems"(4) "2.prems"(5)] .
    have last_eq: "fs = [] \<Longrightarrow> length out = length mid"
      using r by (cases vs) simp_all
    show ?thesis
    proof (cases "fs = []")
      case True
      then have "vs = []" using fits by (cases vs) simp_all
      with True r have "out = mid" by simp
      then show ?thesis using True \<open>vs = []\<close> Bitfield rd v by simp
    next
      case False
      then show ?thesis using Bitfield rd v ih by simp
    qed
  next
    case (RawBytes m')
    with fit obtain bs where v: "v = Bytes bs"
      by (cases v) auto
    have al: "length pre mod 8 = 0"
      using "2.prems"(3) RawBytes by (cases m') simp_all
    have mid: "mid = pre @ unpack_bytes bs"
      using m RawBytes v al
      by (auto simp: align_to_byte_def write_bytes_def Let_def split: if_splits)
    have pre8: "8 * (length pre div 8) = length pre"
      using al by presburger
    show ?thesis
    proof (cases m')
      case (Fixed n)
      have n: "length bs = n" using fit RawBytes Fixed v by (simp split: if_splits)
      have chk: "check_fields (length mid mod 8) fs"
        using "2.prems"(3) RawBytes Fixed mid al by simp
      have ih: "decode_fields fs \<lparr>input = inp, cursor = length mid\<rparr> =
         Inr (vs, \<lparr>input = inp, cursor = (if fs \<noteq> [] \<and> kind (last fs) = RawBytes Remainder then 8 * length inp else length out)\<rparr>)"
        using "2.IH" [OF m r fits chk "2.prems"(4) "2.prems"(5)] .
      have enough: "length pre div 8 + n \<le> length inp"
        using len out mid n pre8 by simp
      have "unpack_bytes (take n (drop (length pre div 8) inp)) =
              take (8 * n) (drop (length pre) (unpack_bytes inp))"
        by (simp add: unpack_bytes_take unpack_bytes_drop pre8)
      also have "\<dots> = unpack_bytes bs"
        using "2.prems"(4) out mid n by simp
      finally have bs: "take n (drop (length pre div 8) inp) = bs"
        by (rule unpack_bytes_inj)
      have rd: "read_bytes n \<lparr>input = inp, cursor = length pre\<rparr> =
           Inr (bs, \<lparr>input = inp, cursor = length mid\<rparr>)"
        using enough bs mid n by (simp add: read_bytes_def)
      have fsne: "fs = [] \<Longrightarrow> out = mid \<and> vs = []"
        using r fits by (cases vs) simp_all
      show ?thesis
      proof (cases "fs = []")
        case True
        then show ?thesis using fsne RawBytes Fixed v rd al
          by (simp add: align_to_byte_def)
      next
        case False
        then show ?thesis using RawBytes Fixed v rd al ih
          by (simp add: align_to_byte_def)
      qed
    next
      case Remainder
      have fsnil: "fs = []"
        using "2.prems"(3) RawBytes Remainder by simp
      then have vsnil: "vs = []" using fits by (cases vs) simp_all
      have outmid: "out = mid" using r fsnil vsnil by simp
      have "length pad mod 8 = 0"
      proof -
        have "(length pre + 8 * length bs + length pad) mod 8 = 0"
          using len outmid mid by (metis length_append length_unpack_bytes mod_mult_self1_is_0 add.assoc)
        then show ?thesis using al by presburger
      qed
      then have pad: "pad = []" using "2.prems"(5) by simp
      have "unpack_bytes (drop (length pre div 8) inp) = drop (length pre) (unpack_bytes inp)"
        by (simp add: unpack_bytes_drop pre8)
      also have "\<dots> = unpack_bytes bs"
        using "2.prems"(4) outmid mid pad by simp
      finally have bs: "drop (length pre div 8) inp = bs"
        by (rule unpack_bytes_inj)
      show ?thesis
        using RawBytes Remainder v al bs fsnil vsnil
        by (simp add: align_to_byte_def read_remainder_def)
    qed
  qed
qed simp_all

lemma encode_fields_succeeds:
  "values_fit fs vs \<Longrightarrow> check_fields (length out mod 8) fs \<Longrightarrow>
     \<exists>out'. encode_fields fs vs out = Inr out'"
proof (induction fs vs out rule: encode_fields.induct)
  case (1 out)
  then show ?case by simp
next
  case (2 f fs v vs out)
  have fit: "check_value (kind f) v = Inr ()" and fits: "values_fit fs vs"
    using "2.prems"(1) by simp_all
  show ?case
  proof (cases "kind f")
    case (Bitfield w)
    with fit obtain x where v: "v = UInt x" and x: "x < 2 ^ w"
      by (cases v) (auto split: if_splits)
    have m: "encode_field (kind f) v out = Inr (out @ bits_of_nat w x)"
      using Bitfield v x by (simp add: write_bits_def)
    have "check_fields (length (out @ bits_of_nat w x) mod 8) fs"
      using "2.prems"(2) Bitfield by (simp add: mod_add_left_eq)
    from "2.IH" [OF m fits this] show ?thesis using m by simp
  next
    case (RawBytes m')
    with fit obtain bs where v: "v = Bytes bs"
      by (cases v) auto
    have al: "length out mod 8 = 0"
      using "2.prems"(2) RawBytes by (cases m') simp_all
    have m: "encode_field (kind f) v out = Inr (out @ unpack_bytes bs)"
      using RawBytes v al by (simp add: align_to_byte_def write_bytes_def)
    have "check_fields (length (out @ unpack_bytes bs) mod 8) fs"
      using "2.prems"(2) RawBytes al by (cases m') simp_all
    from "2.IH" [OF m fits this] show ?thesis using m by simp
  qed
qed simp_all

lemma decode_encode_fields:
  assumes chk: "check_fields 0 fs" and fit: "values_fit fs vs"
  shows "\<exists>out. encode_fields fs vs [] = Inr out \<and>
           (\<exists>r. decode_fields fs \<lparr>input = pack_bits out, cursor = 0\<rparr> = Inr (vs, r) \<and>
                (cursor r + 7) div 8 = length (pack_bits out))"
proof -
  from encode_fields_succeeds [OF fit, of "[]"] chk
  obtain out where enc: "encode_fields fs vs [] = Inr out" by auto
  let ?inp = "pack_bits out"
  let ?pad = "replicate ((8 - length out mod 8) mod 8) False"
  have u: "unpack_bytes ?inp = out @ ?pad" by (rule unpack_pack_bits)
  have p: "length ?pad < 8" by simp
  have c: "check_fields (length ([]::bool list) mod 8) fs" using chk by simp
  from decode_fields_roundtrip [OF enc fit c u p]
  have dec: "decode_fields fs \<lparr>input = ?inp, cursor = 0\<rparr> =
      Inr (vs, \<lparr>input = ?inp, cursor = (if fs \<noteq> [] \<and> kind (last fs) = RawBytes Remainder
                                          then 8 * length ?inp else length out)\<rparr>)"
    by simp
  have "((if fs \<noteq> [] \<and> kind (last fs) = RawBytes Remainder
           then 8 * length ?inp else length out) + 7) div 8 = length ?inp"
    by (simp add: length_pack_bits)
  with enc dec show ?thesis by simp
qed

text \<open>
  C2. Round trip. For a box whose layout passes the descriptor check and whose values
  fit their fields (the states reached from the generated defaults by stores of values
  of the right variant and magnitude), encoding succeeds, and decoding the bytes into
  any box of that layout stores exactly the values of \<open>x\<close> and consumes every byte; decoded
  into \<open>x\<close> itself, the result is \<open>x\<close>.
\<close>

theorem decode_encode_roundtrip:
  assumes "build_layout (layout x) = Some (layout x)"
    and "values_fit (layout x) (values x)"
  shows "\<exists>bs. encode x = Inr bs
           \<and> decode x bs = (x, Inr (length bs))
           \<and> (\<forall>y. layout y = layout x \<longrightarrow>
                 decode y bs = (y\<lparr>values := values x\<rparr>, Inr (length bs)))"
proof -
  have chk: "check_fields 0 (layout x)"
    using assms(1) by (simp add: build_layout_def split: if_splits)
  from decode_encode_fields [OF chk assms(2)]
  obtain out r where enc: "encode_fields (layout x) (values x) [] = Inr out"
    and dec: "decode_fields (layout x) \<lparr>input = pack_bits out, cursor = 0\<rparr> = Inr (values x, r)"
    and n: "(cursor r + 7) div 8 = length (pack_bits out)"
    by blast
  have "encode x = Inr (pack_bits out)"
    using enc by (simp add: encode_def)
  moreover have "decode x (pack_bits out) = (x, Inr (length (pack_bits out)))"
    using dec n by (simp add: decode_def)
  moreover have "\<forall>y. layout y = layout x \<longrightarrow>
      decode y (pack_bits out) = (y\<lparr>values := values x\<rparr>, Inr (length (pack_bits out)))"
    using dec n by (simp add: decode_def)
  ultimately show ?thesis by blast
qed

theorem decode_encode_roundtrip_witness:
  "run [Generate,
        (\<lambda>b. set_by_name b ''seq_profile'' (UInt 5)),
        (\<lambda>b. set_by_name b ''configOBUs'' (Bytes [0xAB, 0xCD]))] MP4Av1CAtom =
     Inr (MP4Av1CAtom\<lparr>values :=
        [UInt 1, UInt 1, UInt 5, UInt 0, UInt 0, UInt 0, UInt 0, UInt 0,
         UInt 0, UInt 0, UInt 0, UInt 0, UInt 0, UInt 0, Bytes [0xAB, 0xCD]]\<rparr>)
   \<and> encode (MP4Av1CAtom\<lparr>values :=
        [UInt 1, UInt 1, UInt 5, UInt 0, UInt 0, UInt 0, UInt 0, UInt 0,
         UInt 0, UInt 0, UInt 0, UInt 0, UInt 0, UInt 0, Bytes [0xAB, 0xCD]]\<rparr>) =
       Inr [0x81, 0xA0, 0x00, 0x00, 0xAB, 0xCD]
   \<and> decode MP4Av1CAtom [0x81, 0xA0, 0x00, 0x00, 0xAB, 0xCD] =
       (MP4Av1CAtom\<lparr>values :=
        [UInt 1, UInt 1, UInt 5, UInt 0, UInt 0, UInt 0, UInt 0, UInt 0,
         UInt 0, UInt 0, UInt 0, UInt 0, UInt 0, UInt 0, Bytes [0xAB, 0xCD]]\<rparr>, Inr 6)"
proof -
  let ?x = "MP4Av1CAtom\<lparr>values :=
        [UInt 1, UInt 1, UInt 5, UInt 0, UInt 0, UInt 0, UInt 0, UInt 0,
         UInt 0, UInt 0, UInt 0, UInt 0, UInt 0, UInt 0, Bytes [0xAB, 0xCD]]\<rparr>"
  have reach: "run [Generate,
        (\<lambda>b. set_by_name b ''seq_profile'' (UInt 5)),
        (\<lambda>b. set_by_name b ''configOBUs'' (Bytes [0xAB, 0xCD]))] MP4Av1CAtom = Inr ?x"
    by (simp add: MP4Av1CAtom_eq Generate_def MP4Atom_Generate_def SetValue_def set_by_name_def)
  have h1: "build_layout (layout ?x) = Some (layout ?x)"
    by (simp add: build_layout_def layout_MP4Av1CAtom)
  have h2: "values_fit (layout ?x) (values ?x)"
    by (simp add: layout_MP4Av1CAtom)
  have enc: "encode ?x = Inr [0x81, 0xA0, 0x00, 0x00, 0xAB, 0xCD]"
    by code_simp
  have same: "layout MP4Av1CAtom = layout ?x" by simp
  from decode_encode_roundtrip [OF h1 h2]
  obtain bs where e: "encode ?x = Inr bs"
    and d: "\<forall>y. layout y = layout ?x \<longrightarrow>
                 decode y bs = (y\<lparr>values := values ?x\<rparr>, Inr (length bs))"
    by blast
  from e enc have bs: "bs = [0x81, 0xA0, 0x00, 0x00, 0xAB, 0xCD]" by simp
  from d same have "decode MP4Av1CAtom bs = (MP4Av1CAtom\<lparr>values := values ?x\<rparr>, Inr (length bs))"
    by blast
  then have "decode MP4Av1CAtom [0x81, 0xA0, 0x00, 0x00, 0xAB, 0xCD] = (?x, Inr 6)"
    unfolding bs by simp
  with reach enc show ?thesis by simp
qed

subsection \<open>Truncated input\<close>

lemma decode_fields_truncated:
  assumes "check_fields (c mod 8) fs"
    and "c \<le> 8 * length inp"
    and "8 * length inp < c + fixed_bits fs"
  shows "decode_fields fs \<lparr>input = inp, cursor = c\<rparr> = Inl TruncatedInput"
  using assms
proof (induction fs arbitrary: c)
  case Nil
  then show ?case by simp
next
  case (Cons f fs)
  show ?case
  proof (cases "kind f")
    case (Bitfield w)
    show ?thesis
    proof (cases "c + w \<le> 8 * length inp")
      case True
      have chk: "check_fields ((c + w) mod 8) fs"
        using Cons.prems(1) Bitfield by (simp add: mod_add_left_eq)
      have "8 * length inp < (c + w) + fixed_bits fs"
        using Cons.prems(3) Bitfield by simp
      from Cons.IH [OF chk True this] show ?thesis
        using Bitfield True by (simp add: read_bits_def)
    next
      case False
      then show ?thesis using Bitfield by (simp add: read_bits_def)
    qed
  next
    case (RawBytes m)
    have al: "c mod 8 = 0"
      using Cons.prems(1) RawBytes by (cases m) simp_all
    have c8: "8 * (c div 8) = c" using al by presburger
    show ?thesis
    proof (cases m)
      case (Fixed n)
      show ?thesis
      proof (cases "c div 8 + n \<le> length inp")
        case True
        have le: "c + 8 * n \<le> 8 * length inp" using True c8 by linarith
        have chk: "check_fields ((c + 8 * n) mod 8) fs"
          using Cons.prems(1) RawBytes Fixed al by simp
        have "8 * length inp < (c + 8 * n) + fixed_bits fs"
          using Cons.prems(3) RawBytes Fixed by simp
        from Cons.IH [OF chk le this] show ?thesis
          using RawBytes Fixed True al by (simp add: read_bytes_def align_to_byte_def)
      next
        case False
        then show ?thesis
          using RawBytes Fixed al by (simp add: read_bytes_def align_to_byte_def)
      qed
    next
      case Remainder
      then have "fs = []" using Cons.prems(1) RawBytes by simp
      then have "fixed_bits (f # fs) = 0" using RawBytes Remainder by simp
      then show ?thesis using Cons.prems(2,3) by simp
    qed
  qed
qed

text \<open>
  C4. Truncation. When the layout of a box passes the descriptor check and the input is
  shorter than the minimum length the fixed-size fields of the layout need, \<open>decode\<close>
  fails with \<open>TruncatedInput\<close> and returns the box with the values it had before the
  call: no field value of the partial walk is stored.
\<close>

theorem decode_truncated_all_or_nothing:
  assumes "build_layout (layout b) = Some (layout b)"
    and "length inp < min_length (layout b)"
  shows "decode b inp = (b, Inl TruncatedInput)"
proof -
  have chk: "check_fields (0 mod 8) (layout b)"
    using assms(1) by (simp add: build_layout_def split: if_splits)
  have "8 * length inp < 0 + fixed_bits (layout b)"
    using assms(2) by (simp add: min_length_def)
  from decode_fields_truncated [OF chk _ this] show ?thesis
    by (simp add: decode_def)
qed

theorem decode_truncated_all_or_nothing_witness:
  "build_layout (layout MP4Av1CAtom) = Some (layout MP4Av1CAtom)
   \<and> length [0x81, 0xA0, 0xFF :: byte] < min_length (layout MP4Av1CAtom)
   \<and> decode MP4Av1CAtom [0x81, 0xA0, 0xFF] = (MP4Av1CAtom, Inl TruncatedInput)"
proof -
  have h1: "build_layout (layout MP4Av1CAtom) = Some (layout MP4Av1CAtom)"
    by (simp add: build_layout_def layout_MP4Av1CAtom)
  have h2: "length [0x81, 0xA0, 0xFF :: byte] < min_length (layout MP4Av1CAtom)"
    by (simp add: min_length_def layout_MP4Av1CAtom)
  from decode_truncated_all_or_nothing [OF h1 h2] h1 h2 show ?thesis by simp
qed

subsection \<open>Alignment of raw byte fields\<close>








subsection \<open>Successful decoding\<close>

lemma values_fit_length: "values_fit fs vs \<Longrightarrow> length vs = length fs"
  by (induction fs vs rule: values_fit.induct) simp_all

lemma decode_field_fits:
  assumes "decode_field k r = Inr (v, r')" and "cursor r \<le> 8 * length (input r)"
  shows "check_value k v = Inr () \<and> input r' = input r \<and> cursor r' \<le> 8 * length (input r)"
proof (cases k)
  case (Bitfield w)
  from assms(1) Bitfield have ok: "cursor r + w \<le> 8 * length (input r)"
    and v: "v = UInt (nat_of_bits (take w (drop (cursor r) (unpack_bytes (input r)))))"
    and r': "r' = r\<lparr>cursor := cursor r + w\<rparr>"
    by (auto simp: read_bits_def split: if_splits)
  have "length (take w (drop (cursor r) (unpack_bytes (input r)))) = w"
    using ok by simp
  with nat_of_bits_lt [of "take w (drop (cursor r) (unpack_bytes (input r)))"]
  have "nat_of_bits (take w (drop (cursor r) (unpack_bytes (input r)))) < 2 ^ w"
    by simp
  then show ?thesis using Bitfield v r' ok by simp
next
  case (RawBytes m)
  from assms(1) RawBytes have al: "cursor r mod 8 = 0"
    by (auto simp: align_to_byte_def split: if_splits)
  have c8: "8 * (cursor r div 8) = cursor r" using al by presburger
  show ?thesis
  proof (cases m)
    case (Fixed n)
    from assms(1) RawBytes Fixed al have ok: "cursor r div 8 + n \<le> length (input r)"
      and v: "v = Bytes (take n (drop (cursor r div 8) (input r)))"
      and r': "r' = r\<lparr>cursor := cursor r + 8 * n\<rparr>"
      by (auto simp: align_to_byte_def read_bytes_def split: if_splits)
    have "cursor r + 8 * n \<le> 8 * length (input r)" using ok c8 by linarith
    then show ?thesis using RawBytes Fixed v r' ok by simp
  next
    case Remainder
    with assms(1) RawBytes al show ?thesis
      by (auto simp: align_to_byte_def read_remainder_def)
  qed
qed

lemma decode_fields_fits:
  "decode_fields fs r = Inr (vs, r') \<Longrightarrow> cursor r \<le> 8 * length (input r) \<Longrightarrow>
     values_fit fs vs \<and> input r' = input r \<and> cursor r' \<le> 8 * length (input r)"
proof (induction fs arbitrary: r vs)
  case Nil
  then show ?case by auto
next
  case (Cons f fs)
  from Cons.prems(1) obtain v r1 ws where
    d1: "decode_field (kind f) r = Inr (v, r1)" and
    d2: "decode_fields fs r1 = Inr (ws, r')" and vs: "vs = v # ws"
    by (auto split: sum.splits prod.splits)
  from decode_field_fits [OF d1 Cons.prems(2)]
  have f1: "check_value (kind f) v = Inr ()" and i1: "input r1 = input r"
    and c1: "cursor r1 \<le> 8 * length (input r1)"
    by simp_all
  from Cons.IH [OF d2 c1] show ?case using f1 i1 vs by simp
qed

lemma decode_success:
  assumes "decode b inp = (b', Inr n)"
  shows "layout b' = layout b \<and> type_code b' = type_code b
         \<and> values_fit (layout b) (values b') \<and> n \<le> length inp"
proof -
  from assms obtain vs r where
    d: "decode_fields (layout b) \<lparr>input = inp, cursor = 0\<rparr> = Inr (vs, r)"
    and b': "b' = b\<lparr>values := vs\<rparr>" and n: "n = (cursor r + 7) div 8"
    by (auto simp: decode_def split: sum.splits prod.splits)
  from decode_fields_fits [OF d] have "values_fit (layout b) vs"
    and "cursor r \<le> 8 * length inp"
    by simp_all
  then show ?thesis using b' n by simp
qed

lemma decode_field_cursor:
  assumes "decode_field k r = Inr (v, r')"
  shows "cursor r' =
     (case k of
        Bitfield w \<Rightarrow> cursor r + w
      | RawBytes (Fixed n) \<Rightarrow> cursor r + 8 * n
      | RawBytes Remainder \<Rightarrow> 8 * length (input r))"
proof (cases k)
  case (Bitfield w)
  with assms show ?thesis
    by (auto simp: read_bits_def split: if_splits)
next
  case (RawBytes m)
  with assms show ?thesis
    by (cases m)
       (auto simp: align_to_byte_def read_bytes_def read_remainder_def split: if_splits)
qed

lemma decode_fields_cursor:
  "decode_fields fs r = Inr (vs, r') \<Longrightarrow> cursor r \<le> 8 * length (input r) \<Longrightarrow>
     cursor r' = (if has_remainder fs then 8 * length (input r) else cursor r + fixed_bits fs)"
proof (induction fs arbitrary: r vs)
  case Nil
  then show ?case by auto
next
  case (Cons f fs)
  from Cons.prems(1) obtain v r1 ws where
    d1: "decode_field (kind f) r = Inr (v, r1)" and
    d2: "decode_fields fs r1 = Inr (ws, r')"
    by (auto split: sum.splits prod.splits)
  from decode_field_fits [OF d1 Cons.prems(2)]
  have i1: "input r1 = input r" and c1: "cursor r1 \<le> 8 * length (input r1)"
    by simp_all
  from Cons.IH [OF d2 c1] i1
  have ih: "cursor r' =
      (if has_remainder fs then 8 * length (input r) else cursor r1 + fixed_bits fs)"
    by simp
  from decode_fields_fits [OF d2 c1] i1
  have le: "cursor r' \<le> 8 * length (input r)" by simp
  show ?case
  proof (cases "kind f")
    case (Bitfield w)
    with decode_field_cursor [OF d1] ih show ?thesis by simp
  next
    case (RawBytes m)
    show ?thesis
    proof (cases m)
      case (Fixed n)
      with RawBytes decode_field_cursor [OF d1] ih show ?thesis by simp
    next
      case Remainder
      with RawBytes decode_field_cursor [OF d1]
      have "cursor r1 = 8 * length (input r)" by simp
      with ih le have "cursor r' = 8 * length (input r)"
        by (simp split: if_splits)
      with RawBytes Remainder show ?thesis by simp
    qed
  qed
qed

lemma decode_bytes_consumed:
  assumes "decode b inp = (b', Inr n)"
  shows "n = (if has_remainder (layout b) then length inp else min_length (layout b))"
proof -
  from assms obtain vs r where
    d: "decode_fields (layout b) \<lparr>input = inp, cursor = 0\<rparr> = Inr (vs, r)"
    and n: "n = (cursor r + 7) div 8"
    by (auto simp: decode_def split: sum.splits prod.splits)
  from decode_fields_cursor [OF d]
  have "cursor r = (if has_remainder (layout b) then 8 * length inp else fixed_bits (layout b))"
    by simp
  with n show ?thesis by (simp add: min_length_def)
qed

lemma decode_av1C:
  assumes "layout b = layout MP4Av1CAtom" and "4 \<le> length inp"
  shows "decode b inp =
      (b\<lparr>values :=
         [UInt (nat_of_bits (take 1 (drop 0 (unpack_bytes inp)))),
          UInt (nat_of_bits (take 7 (drop 1 (unpack_bytes inp)))),
          UInt (nat_of_bits (take 3 (drop 8 (unpack_bytes inp)))),
          UInt (nat_of_bits (take 5 (drop 11 (unpack_bytes inp)))),
          UInt (nat_of_bits (take 1 (drop 16 (unpack_bytes inp)))),
          UInt (nat_of_bits (take 1 (drop 17 (unpack_bytes inp)))),
          UInt (nat_of_bits (take 1 (drop 18 (unpack_bytes inp)))),
          UInt (nat_of_bits (take 1 (drop 19 (unpack_bytes inp)))),
          UInt (nat_of_bits (take 1 (drop 20 (unpack_bytes inp)))),
          UInt (nat_of_bits (take 1 (drop 21 (unpack_bytes inp)))),
          UInt (nat_of_bits (take 2 (drop 22 (unpack_bytes inp)))),
          UInt (nat_of_bits (take 3 (drop 24 (unpack_bytes inp)))),
          UInt (nat_of_bits (take 1 (drop 27 (unpack_bytes inp)))),
          UInt (nat_of_bits (take 4 (drop 28 (unpack_bytes inp)))),
          Bytes (drop 4 inp)]\<rparr>,
       Inr (length inp))"
  using assms
  by (simp add: decode_def layout_MP4Av1CAtom read_bits_def align_to_byte_def
      read_remainder_def)

text \<open>
  C6. Decoding a 6-byte input against the layout of the AV1 configuration atom succeeds,
  stores in \<open>configOBUs\<close> exactly the two trailing bytes of the input and consumes all 6
  bytes. In general a successful \<open>decode\<close> leaves the layout as it is, stores one value
  for every field, each fitting its field, and returns the number of bytes consumed:
  the length of the input when the layout has a \<open>Remainder\<close> field, and otherwise the
  bytes that the fields of the layout occupy, which is at most the length of the input.
\<close>

theorem decode_remainder_field:
  "(layout b = layout MP4Av1CAtom \<and> length inp = 6 \<longrightarrow>
      snd (decode b inp) = Inr 6
      \<and> fst (decode b inp) = b\<lparr>values := values (fst (decode b inp))\<rparr>
      \<and> length (values (fst (decode b inp))) = 15
      \<and> values (fst (decode b inp)) ! 14 = Bytes [inp ! 4, inp ! 5]
      \<and> get_by_name (fst (decode b inp)) ''configOBUs'' = Inr (Bytes [inp ! 4, inp ! 5]))
   \<and> (decode b' inp' = (b'', Inr n) \<longrightarrow>
         layout b'' = layout b'
       \<and> length (values b'') = length (layout b')
       \<and> values_fit (layout b') (values b'')
       \<and> n \<le> length inp'
       \<and> n = (if has_remainder (layout b') then length inp' else min_length (layout b')))"
proof (rule conjI)
  show "layout b = layout MP4Av1CAtom \<and> length inp = 6 \<longrightarrow>
      snd (decode b inp) = Inr 6
      \<and> fst (decode b inp) = b\<lparr>values := values (fst (decode b inp))\<rparr>
      \<and> length (values (fst (decode b inp))) = 15
      \<and> values (fst (decode b inp)) ! 14 = Bytes [inp ! 4, inp ! 5]
      \<and> get_by_name (fst (decode b inp)) ''configOBUs'' = Inr (Bytes [inp ! 4, inp ! 5])"
  proof (rule impI)
    assume a: "layout b = layout MP4Av1CAtom \<and> length inp = 6"
    then have "length inp = 6" by simp
    then have tail: "drop 4 inp = [inp ! 4, inp ! 5]"
      by (auto simp: list_eq_iff_nth_eq less_Suc_eq numeral_2_eq_2)
    from a have "4 \<le> length inp" by simp
    from decode_av1C [OF _ this, of b] a tail
    show "snd (decode b inp) = Inr 6
      \<and> fst (decode b inp) = b\<lparr>values := values (fst (decode b inp))\<rparr>
      \<and> length (values (fst (decode b inp))) = 15
      \<and> values (fst (decode b inp)) ! 14 = Bytes [inp ! 4, inp ! 5]
      \<and> get_by_name (fst (decode b inp)) ''configOBUs'' = Inr (Bytes [inp ! 4, inp ! 5])"
      by (simp add: get_by_name_def layout_MP4Av1CAtom)
  qed
next
  show "decode b' inp' = (b'', Inr n) \<longrightarrow>
         layout b'' = layout b'
       \<and> length (values b'') = length (layout b')
       \<and> values_fit (layout b') (values b'')
       \<and> n \<le> length inp'
       \<and> n = (if has_remainder (layout b') then length inp' else min_length (layout b'))"
  proof (rule impI)
    assume d: "decode b' inp' = (b'', Inr n)"
    from decode_success [OF d] values_fit_length [of "layout b'" "values b''"]
      decode_bytes_consumed [OF d]
    show "layout b'' = layout b'
       \<and> length (values b'') = length (layout b')
       \<and> values_fit (layout b') (values b'')
       \<and> n \<le> length inp'
       \<and> n = (if has_remainder (layout b') then length inp' else min_length (layout b'))"
      by simp
  qed
qed

theorem decode_remainder_field_witness:
  "decode MP4Av1CAtom [0x81, 0x2A, 0xFF, 0x13, 0x07, 0x09] =
     (MP4Av1CAtom\<lparr>values :=
        [UInt 1, UInt 1, UInt 1, UInt 10, UInt 1, UInt 1, UInt 1, UInt 1,
         UInt 1, UInt 1, UInt 3, UInt 0, UInt 1, UInt 3, Bytes [0x07, 0x09]]\<rparr>, Inr 6)
   \<and> get_by_name (fst (decode MP4Av1CAtom [0x81, 0x2A, 0xFF, 0x13, 0x07, 0x09])) ''configOBUs'' =
       Inr (Bytes [0x07, 0x09])
   \<and> values_fit (layout MP4Av1CAtom)
        [UInt 1, UInt 1, UInt 1, UInt 10, UInt 1, UInt 1, UInt 1, UInt 1,
         UInt 1, UInt 1, UInt 3, UInt 0, UInt 1, UInt 3, Bytes [0x07, 0x09]]
   \<and> has_remainder (layout MP4Av1CAtom)
   \<and> decode (AddProperty (MP4BitfieldProperty ''flags'' 8) (MP4Atom ''test'')) [0x01, 0x02, 0x03] =
       ((AddProperty (MP4BitfieldProperty ''flags'' 8) (MP4Atom ''test''))\<lparr>values := [UInt 1]\<rparr>,
        Inr 1)
   \<and> (1::nat) = (if has_remainder (layout (AddProperty (MP4BitfieldProperty ''flags'' 8) (MP4Atom ''test'')))
          then length [0x01, 0x02, 0x03 :: byte]
          else min_length (layout (AddProperty (MP4BitfieldProperty ''flags'' 8) (MP4Atom ''test''))))"
proof -
  let ?inp = "[0x81, 0x2A, 0xFF, 0x13, 0x07, 0x09] :: byte list"
  let ?x = "MP4Av1CAtom\<lparr>values :=
        [UInt 1, UInt 1, UInt 1, UInt 10, UInt 1, UInt 1, UInt 1, UInt 1,
         UInt 1, UInt 1, UInt 3, UInt 0, UInt 1, UInt 3, Bytes [0x07, 0x09]]\<rparr>"
  let ?one = "AddProperty (MP4BitfieldProperty ''flags'' 8) (MP4Atom ''test'')"
  let ?inp1 = "[0x01, 0x02, 0x03] :: byte list"
  have d: "decode MP4Av1CAtom ?inp = (?x, Inr 6)" by code_simp
  have g: "get_by_name ?x ''configOBUs'' = Inr (Bytes [0x07, 0x09])"
    by (simp add: get_by_name_def layout_MP4Av1CAtom)
  have r: "has_remainder (layout MP4Av1CAtom)"
    by (simp add: layout_MP4Av1CAtom)
  have d1: "decode ?one ?inp1 = (?one\<lparr>values := [UInt 1]\<rparr>, Inr 1)" by code_simp
  from decode_remainder_field [of MP4Av1CAtom ?inp MP4Av1CAtom ?inp ?x 6] d
  have f: "values_fit (layout MP4Av1CAtom) (values ?x)" by simp
  from decode_remainder_field [of MP4Av1CAtom ?inp ?one ?inp1 "?one\<lparr>values := [UInt 1]\<rparr>" 1] d1
  have n1: "(1::nat) = (if has_remainder (layout ?one) then length ?inp1 else min_length (layout ?one))"
    by blast
  from d g f r d1 n1 show ?thesis by simp
qed

subsection \<open>Generating defaults keeps the shape of the box\<close>

lemma SetValue_inv:
  "\<forall>x x'. layout x = L \<and> type_code x = T \<and> length (values x) = N \<longrightarrow>
      SetValue i v x = Inr x' \<longrightarrow>
      layout x' = L \<and> type_code x' = T \<and> length (values x') = N"
  by (auto simp: SetValue_def split: if_splits field_kind.splits)

lemma MP4Atom_Generate_inv:
  "\<forall>x x'. layout x = L \<and> type_code x = T \<and> length (values x) = N \<longrightarrow>
      MP4Atom_Generate x = Inr x' \<longrightarrow>
      layout x' = L \<and> type_code x' = T \<and> length (values x') = N"
  by (simp add: MP4Atom_Generate_def)

lemma run_invariant:
  "list_all (\<lambda>s. \<forall>x x'. I x \<longrightarrow> s x = Inr x' \<longrightarrow> I x') ss \<Longrightarrow> I b \<Longrightarrow> run ss b = Inr b' \<Longrightarrow> I b'"
proof (induction ss arbitrary: b)
  case Nil
  then show ?case by simp
next
  case (Cons s ss)
  from Cons.prems(3) obtain m where m: "s b = Inr m" and r: "run ss m = Inr b'"
    by (auto split: sum.splits)
  have hd: "\<forall>x x'. I x \<longrightarrow> s x = Inr x' \<longrightarrow> I x'"
    using Cons.prems(1) unfolding list.pred_inject by (rule conjunct1)
  have rest: "list_all (\<lambda>s. \<forall>x x'. I x \<longrightarrow> s x = Inr x' \<longrightarrow> I x') ss"
    using Cons.prems(1) unfolding list.pred_inject by (rule conjunct2)
  have im: "I m" using hd Cons.prems(2) m by blast
  from Cons.IH [OF rest im r] show ?case .
qed

lemma Generate_preserves:
  assumes "Generate b = Inr g"
  shows "layout g = layout b \<and> type_code g = type_code b \<and> length (values g) = length (values b)"
proof -
  let ?I = "\<lambda>x. layout x = layout b \<and> type_code x = type_code b
                 \<and> length (values x) = length (values b)"
  have step: "list_all (\<lambda>s. \<forall>x x'. ?I x \<longrightarrow> s x = Inr x' \<longrightarrow> ?I x')
     [MP4Atom_Generate, SetValue 0 1, SetValue 1 1, SetValue 2 0,
      SetValue 3 0, SetValue 4 0, SetValue 5 0, SetValue 6 0, SetValue 7 0, SetValue 8 0,
      SetValue 9 0, SetValue 10 0, SetValue 11 0, SetValue 12 0, SetValue 13 0]"
    unfolding list.pred_inject
    by (intro conjI SetValue_inv MP4Atom_Generate_inv list.pred_inject(1))
  have "?I b" by (intro conjI refl)
  from assms have "run [MP4Atom_Generate, SetValue 0 1, SetValue 1 1, SetValue 2 0,
      SetValue 3 0, SetValue 4 0, SetValue 5 0, SetValue 6 0, SetValue 7 0, SetValue 8 0,
      SetValue 9 0, SetValue 10 0, SetValue 11 0, SetValue 12 0, SetValue 13 0] b = Inr g"
    by (simp only: Generate_def)
  from run_invariant [where I = ?I, OF step \<open>?I b\<close> this]
  show ?thesis .
qed

lemma upt15: "[0..<15] = [0, 1, 2, 3, 4, 5, 6, 7, 8, 9, 10, 11, 12, 13, 14::nat]"
  by code_simp

lemma list15:
  assumes "length vs = 15"
  obtains x0 x1 x2 x3 x4 x5 x6 x7 x8 x9 x10 x11 x12 x13 x14
  where "vs = [x0, x1, x2, x3, x4, x5, x6, x7, x8, x9, x10, x11, x12, x13, x14]"
proof -
  have "map ((!) vs) [0..<15] = vs"
    using map_nth [of vs] assms by simp
  then have "vs = [vs ! 0, vs ! 1, vs ! 2, vs ! 3, vs ! 4, vs ! 5, vs ! 6, vs ! 7, vs ! 8, vs ! 9,
      vs ! 10, vs ! 11, vs ! 12, vs ! 13, vs ! 14]"
    unfolding upt15 list.map by (rule sym)
  then show ?thesis by (rule that)
qed

lemma Generate_av1C:
  assumes "layout b = layout MP4Av1CAtom" and "length (values b) = 15"
  shows "Generate b =
     Inr (b\<lparr>values :=
        [UInt 1, UInt 1, UInt 0, UInt 0, UInt 0, UInt 0, UInt 0, UInt 0,
         UInt 0, UInt 0, UInt 0, UInt 0, UInt 0, UInt 0, values b ! 14]\<rparr>)"
proof -
  from assms(2) obtain x0 x1 x2 x3 x4 x5 x6 x7 x8 x9 x10 x11 x12 x13 x14
    where vs: "values b = [x0, x1, x2, x3, x4, x5, x6, x7, x8, x9, x10, x11, x12, x13, x14]"
    by (rule list15)
  show ?thesis
    using assms(1)
    by (simp add: vs Generate_def MP4Atom_Generate_def SetValue_def layout_MP4Av1CAtom)
qed

subsection \<open>The invariant of a box instance\<close>

lemma find_field_Some:
  "find_field n fs = Some i \<Longrightarrow> i < length fs \<and> name (fs ! i) = n"
proof (induction fs arbitrary: i)
  case Nil
  then show ?case by simp
next
  case (Cons f fs)
  show ?case
  proof (cases "name f = n")
    case True
    with Cons.prems show ?thesis by simp
  next
    case False
    with Cons.prems obtain j where j: "find_field n fs = Some j" and i: "i = Suc j"
      by (auto split: option.splits)
    from Cons.IH [OF j] i show ?thesis by simp
  qed
qed

lemma set_by_name_preserves:
  "set_by_name b n v = Inr b' \<Longrightarrow>
     layout b' = layout b \<and> type_code b' = type_code b \<and> length (values b') = length (values b)"
  by (auto simp: set_by_name_def split: option.splits if_splits sum.splits)

lemma values_fit_update:
  "values_fit fs vs \<Longrightarrow> i < length fs \<Longrightarrow> check_value (kind (fs ! i)) v = Inr () \<Longrightarrow>
     values_fit fs (vs[i := v])"
proof (induction fs vs arbitrary: i rule: values_fit.induct)
  case 1
  then show ?case by simp
next
  case (2 f fs w ws)
  then show ?case by (cases i) simp_all
qed simp_all

lemma set_by_name_fits:
  assumes "values_fit (layout b) (values b)" and "set_by_name b n v = Inr b'"
  shows "values_fit (layout b') (values b')"
proof -
  from assms(2) obtain i where f: "find_field n (layout b) = Some i"
    and c: "check_value (kind (layout b ! i)) v = Inr ()"
    and b': "b' = b\<lparr>values := (values b)[i := v]\<rparr>"
    by (auto simp: set_by_name_def split: option.splits if_splits sum.splits)
  from find_field_Some [OF f] have "i < length (layout b)" by simp
  from values_fit_update [OF assms(1) this c] b' show ?thesis by simp
qed

lemma generated_defaults_fit:
  "build_layout (layout MP4Av1CAtom) = Some (layout MP4Av1CAtom)
   \<and> values_fit (layout MP4Av1CAtom)
        [UInt 1, UInt 1, UInt 0, UInt 0, UInt 0, UInt 0, UInt 0, UInt 0,
         UInt 0, UInt 0, UInt 0, UInt 0, UInt 0, UInt 0, Bytes []]"
  by (simp add: build_layout_def layout_MP4Av1CAtom)

text \<open>
  C8. The invariant \<open>length values = length (fields of the layout)\<close> holds for the
  constructed atom and is kept, together with the layout, by every operation that returns
  a box: \<open>Generate\<close>, \<open>decode\<close> (whether it fails or succeeds) and the store by name;
  \<open>encode\<close> and the lookup by name return no box and leave it as it is. \<open>Generate\<close> never
  fails on a box of the AV1 layout that satisfies the invariant.
\<close>

theorem box_invariant_preserved:
  "box_inv MP4Av1CAtom
   \<and> (box_inv b \<longrightarrow> (\<forall>g. Generate b = Inr g \<longrightarrow> box_inv g \<and> layout g = layout b))
   \<and> (box_inv b \<longrightarrow> box_inv (fst (decode b inp)) \<and> layout (fst (decode b inp)) = layout b)
   \<and> (box_inv b \<longrightarrow> (\<forall>b'. set_by_name b n v = Inr b' \<longrightarrow> box_inv b' \<and> layout b' = layout b))
   \<and> (box_inv b \<and> layout b = layout MP4Av1CAtom \<longrightarrow>
         (\<exists>g. Generate b = Inr g \<and> box_inv g \<and> layout g = layout b))"
proof (intro conjI)
  show "box_inv MP4Av1CAtom"
    by (simp add: box_inv_def MP4Av1CAtom_eq)
  show "box_inv b \<longrightarrow> (\<forall>g. Generate b = Inr g \<longrightarrow> box_inv g \<and> layout g = layout b)"
  proof (intro impI allI)
    fix g
    assume i: "box_inv b" and g: "Generate b = Inr g"
    from Generate_preserves [OF g] i show "box_inv g \<and> layout g = layout b"
      by (simp add: box_inv_def)
  qed
  show "box_inv b \<longrightarrow> box_inv (fst (decode b inp)) \<and> layout (fst (decode b inp)) = layout b"
  proof (rule impI)
    assume i: "box_inv b"
    show "box_inv (fst (decode b inp)) \<and> layout (fst (decode b inp)) = layout b"
    proof (cases "snd (decode b inp)")
      case (Inl e)
      have "fst (decode b inp) = b"
      proof (cases "decode_fields (layout b) \<lparr>input = inp, cursor = 0\<rparr>")
        case (Inl e')
        then show ?thesis by (simp add: decode_def)
      next
        case (Inr p)
        with Inl show ?thesis by (cases p) (simp add: decode_def)
      qed
      with i show ?thesis by simp
    next
      case (Inr k)
      then have d: "decode b inp = (fst (decode b inp), Inr k)"
        by (simp add: prod_eq_iff)
      from decode_success [OF d]
      have "layout (fst (decode b inp)) = layout b"
        and "values_fit (layout b) (values (fst (decode b inp)))"
        by blast+
      with values_fit_length [of "layout b" "values (fst (decode b inp))"]
      show ?thesis by (simp add: box_inv_def)
    qed
  qed
  show "box_inv b \<longrightarrow> (\<forall>b'. set_by_name b n v = Inr b' \<longrightarrow> box_inv b' \<and> layout b' = layout b)"
  proof (intro impI allI)
    fix b'
    assume i: "box_inv b" and s: "set_by_name b n v = Inr b'"
    from set_by_name_preserves [OF s] i show "box_inv b' \<and> layout b' = layout b"
      by (simp add: box_inv_def)
  qed
  show "box_inv b \<and> layout b = layout MP4Av1CAtom \<longrightarrow>
         (\<exists>g. Generate b = Inr g \<and> box_inv g \<and> layout g = layout b)"
  proof (rule impI)
    assume a: "box_inv b \<and> layout b = layout MP4Av1CAtom"
    then have lay: "layout b = layout MP4Av1CAtom" by (rule conjunct2)
    from a have l: "length (values b) = 15"
      by (simp add: box_inv_def layout_MP4Av1CAtom)
    let ?g = "b\<lparr>values :=
        [UInt 1, UInt 1, UInt 0, UInt 0, UInt 0, UInt 0, UInt 0, UInt 0,
         UInt 0, UInt 0, UInt 0, UInt 0, UInt 0, UInt 0, values b ! 14]\<rparr>"
    have "Generate b = Inr ?g" using lay l by (rule Generate_av1C)
    moreover have "box_inv ?g" using lay by (simp add: box_inv_def layout_MP4Av1CAtom)
    moreover have "layout ?g = layout b" by simp
    ultimately show "\<exists>g. Generate b = Inr g \<and> box_inv g \<and> layout g = layout b"
      by (intro exI [of _ ?g] conjI)
  qed
qed

theorem box_invariant_preserved_witness:
  "box_inv MP4Av1CAtom
   \<and> (\<exists>g. Generate MP4Av1CAtom = Inr g \<and> box_inv g)
   \<and> box_inv (fst (decode MP4Av1CAtom [0x81, 0x00]))
   \<and> box_inv (fst (decode MP4Av1CAtom [0x81, 0x00, 0x00, 0x00, 0x0A]))
   \<and> (\<exists>b'. set_by_name MP4Av1CAtom ''version'' (UInt 1) = Inr b' \<and> box_inv b')"
proof -
  note t = box_invariant_preserved [of MP4Av1CAtom _ "''version''" "UInt 1"]
  have inv: "box_inv MP4Av1CAtom"
    using t [of "[]"] by (rule conjunct1)
  have "\<exists>g. Generate MP4Av1CAtom = Inr g \<and> box_inv g \<and> layout g = layout MP4Av1CAtom"
    using t [of "[]", THEN conjunct2, THEN conjunct2, THEN conjunct2, THEN conjunct2] inv
    by simp
  then have g: "\<exists>g. Generate MP4Av1CAtom = Inr g \<and> box_inv g" by blast
  have d1: "box_inv (fst (decode MP4Av1CAtom [0x81, 0x00]))"
    using t [of "[0x81, 0x00]", THEN conjunct2, THEN conjunct2, THEN conjunct1] inv
    by simp
  have d2: "box_inv (fst (decode MP4Av1CAtom [0x81, 0x00, 0x00, 0x00, 0x0A]))"
    using t [of "[0x81, 0x00, 0x00, 0x00, 0x0A]", THEN conjunct2, THEN conjunct2, THEN conjunct1] inv
    by simp
  have s: "set_by_name MP4Av1CAtom ''version'' (UInt 1) =
      Inr (MP4Av1CAtom\<lparr>values := (values MP4Av1CAtom)[1 := UInt 1]\<rparr>)"
    by (simp add: set_by_name_def MP4Av1CAtom_eq)
  have "\<forall>b'. set_by_name MP4Av1CAtom ''version'' (UInt 1) = Inr b' \<longrightarrow>
          box_inv b' \<and> layout b' = layout MP4Av1CAtom"
    using t [of "[]", THEN conjunct2, THEN conjunct2, THEN conjunct2, THEN conjunct1] inv
    by (rule mp)
  with s have s': "\<exists>b'. set_by_name MP4Av1CAtom ''version'' (UInt 1) = Inr b' \<and> box_inv b'"
    by blast
  from inv g d1 d2 s' show ?thesis by (intro conjI)
qed

subsection \<open>Idempotent defaults and field names\<close>

text \<open>
  C9. \<open>Generate\<close> is idempotent on the AV1 configuration atom: on every box of that
  layout with one value per field it succeeds, and applied to its own result it returns
  that result unchanged, field by field.
\<close>

theorem Generate_idempotent:
  assumes "layout b = layout MP4Av1CAtom" and "box_inv b"
  shows "\<exists>g. Generate b = Inr g \<and> Generate g = Inr g"
proof -
  let ?g = "b\<lparr>values :=
        [UInt 1, UInt 1, UInt 0, UInt 0, UInt 0, UInt 0, UInt 0, UInt 0,
         UInt 0, UInt 0, UInt 0, UInt 0, UInt 0, UInt 0, values b ! 14]\<rparr>"
  have l: "length (values b) = 15"
    using assms by (simp add: box_inv_def layout_MP4Av1CAtom)
  have first: "Generate b = Inr ?g" using assms(1) l by (rule Generate_av1C)
  have lay: "layout ?g = layout MP4Av1CAtom" using assms(1) by simp
  have len: "length (values ?g) = 15" by simp
  have "Generate ?g = Inr (?g\<lparr>values :=
        [UInt 1, UInt 1, UInt 0, UInt 0, UInt 0, UInt 0, UInt 0, UInt 0,
         UInt 0, UInt 0, UInt 0, UInt 0, UInt 0, UInt 0, values ?g ! 14]\<rparr>)"
    using lay len by (rule Generate_av1C)
  then have second: "Generate ?g = Inr ?g" by simp
  from first second show ?thesis by (intro exI [of _ ?g] conjI)
qed

theorem Generate_idempotent_witness:
  "Generate (MP4Av1CAtom\<lparr>values :=
        [UInt 0, UInt 5, UInt 7, UInt 9, UInt 1, UInt 1, UInt 1, UInt 1,
         UInt 1, UInt 1, UInt 3, UInt 2, UInt 1, UInt 15, Bytes [0x0A, 0x0B]]\<rparr>) =
     Inr (MP4Av1CAtom\<lparr>values :=
        [UInt 1, UInt 1, UInt 0, UInt 0, UInt 0, UInt 0, UInt 0, UInt 0,
         UInt 0, UInt 0, UInt 0, UInt 0, UInt 0, UInt 0, Bytes [0x0A, 0x0B]]\<rparr>)
   \<and> Generate (MP4Av1CAtom\<lparr>values :=
        [UInt 1, UInt 1, UInt 0, UInt 0, UInt 0, UInt 0, UInt 0, UInt 0,
         UInt 0, UInt 0, UInt 0, UInt 0, UInt 0, UInt 0, Bytes [0x0A, 0x0B]]\<rparr>) =
     Inr (MP4Av1CAtom\<lparr>values :=
        [UInt 1, UInt 1, UInt 0, UInt 0, UInt 0, UInt 0, UInt 0, UInt 0,
         UInt 0, UInt 0, UInt 0, UInt 0, UInt 0, UInt 0, Bytes [0x0A, 0x0B]]\<rparr>)"
proof -
  let ?x = "MP4Av1CAtom\<lparr>values :=
        [UInt 0, UInt 5, UInt 7, UInt 9, UInt 1, UInt 1, UInt 1, UInt 1,
         UInt 1, UInt 1, UInt 3, UInt 2, UInt 1, UInt 15, Bytes [0x0A, 0x0B]]\<rparr>"
  let ?g = "MP4Av1CAtom\<lparr>values :=
        [UInt 1, UInt 1, UInt 0, UInt 0, UInt 0, UInt 0, UInt 0, UInt 0,
         UInt 0, UInt 0, UInt 0, UInt 0, UInt 0, UInt 0, Bytes [0x0A, 0x0B]]\<rparr>"
  have h1: "layout ?x = layout MP4Av1CAtom" by simp
  have h2: "box_inv ?x" by (simp add: box_inv_def layout_MP4Av1CAtom)
  have e: "Generate ?x = Inr ?g"
    by (simp add: MP4Av1CAtom_eq Generate_def MP4Atom_Generate_def SetValue_def)
  from Generate_idempotent [OF h1 h2] obtain g where
    "Generate ?x = Inr g" and "Generate g = Inr g" by blast
  with e have "Generate ?g = Inr ?g" by simp
  with e show ?thesis by (intro conjI)
qed

text \<open>
  C10. The fifteen field names of the AV1 layout are pairwise distinct, and the field at
  index 11 is named \<open>reserved\<close> followed by one space. On every box of that layout the
  lookup and the store under the name without the space fail with \<open>UnknownField\<close>; with
  one value per field, the lookup under the name with the space returns the value at
  index 11 and the store of a 3-bit value there succeeds.
\<close>

theorem reserved_name_trailing_space:
  "distinct (map name (layout MP4Av1CAtom))
   \<and> length (layout MP4Av1CAtom) = 15
   \<and> layout MP4Av1CAtom ! 11 = FieldSpec ''reserved '' (Bitfield 3)
   \<and> find_field ''reserved '' (layout MP4Av1CAtom) = Some 11
   \<and> find_field ''reserved'' (layout MP4Av1CAtom) = None
   \<and> (layout b = layout MP4Av1CAtom \<longrightarrow>
         get_by_name b ''reserved'' = Inl UnknownField
       \<and> set_by_name b ''reserved'' v = Inl UnknownField)
   \<and> (layout b = layout MP4Av1CAtom \<and> box_inv b \<longrightarrow>
         get_by_name b ''reserved '' = Inr (values b ! 11)
       \<and> (x < 8 \<longrightarrow>
            set_by_name b ''reserved '' (UInt x) = Inr (b\<lparr>values := (values b)[11 := UInt x]\<rparr>)))"
proof (intro conjI)
  show "distinct (map name (layout MP4Av1CAtom))"
    by (simp add: layout_MP4Av1CAtom)
  show "length (layout MP4Av1CAtom) = 15"
    by (simp add: layout_MP4Av1CAtom)
  show "layout MP4Av1CAtom ! 11 = FieldSpec ''reserved '' (Bitfield 3)"
    by (simp add: layout_MP4Av1CAtom)
  show f1: "find_field ''reserved '' (layout MP4Av1CAtom) = Some 11"
    by (simp add: layout_MP4Av1CAtom)
  show f0: "find_field ''reserved'' (layout MP4Av1CAtom) = None"
    by (simp add: layout_MP4Av1CAtom)
  show "layout b = layout MP4Av1CAtom \<longrightarrow>
         get_by_name b ''reserved'' = Inl UnknownField
       \<and> set_by_name b ''reserved'' v = Inl UnknownField"
    using f0 by (simp add: get_by_name_def set_by_name_def)
  show "layout b = layout MP4Av1CAtom \<and> box_inv b \<longrightarrow>
         get_by_name b ''reserved '' = Inr (values b ! 11)
       \<and> (x < 8 \<longrightarrow>
            set_by_name b ''reserved '' (UInt x) = Inr (b\<lparr>values := (values b)[11 := UInt x]\<rparr>))"
  proof (rule impI)
    assume a: "layout b = layout MP4Av1CAtom \<and> box_inv b"
    then have l: "length (values b) = 15" and lay: "layout b = layout MP4Av1CAtom"
      by (simp_all add: box_inv_def layout_MP4Av1CAtom)
    have k: "kind (layout MP4Av1CAtom ! 11) = Bitfield 3"
      by (simp add: layout_MP4Av1CAtom)
    show "get_by_name b ''reserved '' = Inr (values b ! 11)
       \<and> (x < 8 \<longrightarrow>
            set_by_name b ''reserved '' (UInt x) = Inr (b\<lparr>values := (values b)[11 := UInt x]\<rparr>))"
      using f1 l lay k by (simp add: get_by_name_def set_by_name_def)
  qed
qed

theorem reserved_name_trailing_space_witness:
  "get_by_name MP4Av1CAtom ''reserved'' = Inl UnknownField
   \<and> set_by_name MP4Av1CAtom ''reserved'' (UInt 0) = Inl UnknownField
   \<and> get_by_name MP4Av1CAtom ''reserved '' = Inr (UInt 0)
   \<and> set_by_name MP4Av1CAtom ''reserved '' (UInt 5) =
       Inr (MP4Av1CAtom\<lparr>values :=
        [UInt 0, UInt 0, UInt 0, UInt 0, UInt 0, UInt 0, UInt 0, UInt 0,
         UInt 0, UInt 0, UInt 0, UInt 5, UInt 0, UInt 0, Bytes []]\<rparr>)"
proof -
  note t = reserved_name_trailing_space [of MP4Av1CAtom "UInt 0" 5]
  have inv: "box_inv MP4Av1CAtom" by (simp add: box_inv_def MP4Av1CAtom_eq)
  have v: "values MP4Av1CAtom =
        [UInt 0, UInt 0, UInt 0, UInt 0, UInt 0, UInt 0, UInt 0, UInt 0,
         UInt 0, UInt 0, UInt 0, UInt 0, UInt 0, UInt 0, Bytes []]"
    by (simp add: MP4Av1CAtom_eq)
  have a: "get_by_name MP4Av1CAtom ''reserved'' = Inl UnknownField
       \<and> set_by_name MP4Av1CAtom ''reserved'' (UInt 0) = Inl UnknownField"
    using t [THEN conjunct2, THEN conjunct2, THEN conjunct2, THEN conjunct2, THEN conjunct2,
             THEN conjunct1]
    by simp
  have b: "get_by_name MP4Av1CAtom ''reserved '' = Inr (values MP4Av1CAtom ! 11)
       \<and> (5 < (8::nat) \<longrightarrow>
            set_by_name MP4Av1CAtom ''reserved '' (UInt 5) =
              Inr (MP4Av1CAtom\<lparr>values := (values MP4Av1CAtom)[11 := UInt 5]\<rparr>))"
    using t [THEN conjunct2, THEN conjunct2, THEN conjunct2, THEN conjunct2, THEN conjunct2,
             THEN conjunct2] inv
    by simp
  from a b show ?thesis unfolding v by simp
qed

end
